theory Spec2Isabelle
  imports Main "HOL-Library.Word"
begin

unbundle bit_operations_syntax

section \<open>The state-machine store of a replica set (home\_storage\_engine.cpp)\<close>

text \<open>
  The development embeds \<^verbatim>\<open>HomeStateMachineStore\<close>: the in-memory superblock with its
  commit LSN, and the journal of freed PBAs kept in a log store. Every member function
  becomes a function on an explicit state record. The free-PBA records are byte buffers;
  the source reads and writes them through raw pointers without any bounds check, so the
  model checks the bounds and reports an access outside the buffer as a \<open>fault\<close>.
\<close>

subsection \<open>Scalars\<close>

type_synonym byte = "8 word"
type_synonym pba_t = "64 word"
type_synonym pba_list_t = "pba_t list"
type_synonym log_buffer = "byte list"

text \<open>
  Modelled from the spec: \<^verbatim>\<open>repl_lsn_t\<close> and \<^verbatim>\<open>store_lsn_t\<close> are declared in a header that
  is not among the sources. The spec and the listener interface give an LSN as an
  \<^verbatim>\<open>i64\<close>: a 64-bit word read in two's complement. Its order is the signed order
  (\<open>\<le>s\<close>, \<open><s\<close>), and its arithmetic wraps around as the compiled code does: one below
  the least value is the greatest.
\<close>

type_synonym repl_lsn_t = "64 word"
type_synonym store_lsn_t = "64 word"

definition int64_min :: "64 word" where
  "int64_min = 0x8000000000000000"

definition int64_max :: "64 word" where
  "int64_max = 0x7FFFFFFFFFFFFFFF"

definition to_store_lsn :: "repl_lsn_t \<Rightarrow> store_lsn_t" where
  "to_store_lsn raft_lsn = raft_lsn - 1"

definition to_repl_lsn :: "store_lsn_t \<Rightarrow> repl_lsn_t" where
  "to_repl_lsn store_lsn = store_lsn + 1"

subsection \<open>Raw memory\<close>

text \<open>
  \<open>OutOfBounds\<close>: a load or store through a raw pointer that leaves the buffer.
  \<open>Uninitialised\<close>: a buffer handed on while some of its bytes were never written.
\<close>

datatype fault = OutOfBounds | Uninitialised

text \<open>
  A freshly allocated \<^verbatim>\<open>sisl::io_blob\<close> holds \<open>size\<close> bytes of unspecified content: each
  cell is \<open>None\<close> until it is written.
\<close>

type_synonym raw_mem = "byte option list"

definition io_blob_alloc :: "32 word \<Rightarrow> raw_mem" where
  "io_blob_alloc sz = replicate (unat sz) None"

definition store_bytes :: "nat \<Rightarrow> byte list \<Rightarrow> raw_mem \<Rightarrow> raw_mem option" where
  "store_bytes off bs mem =
     (if off + length bs \<le> length mem
      then Some (take off mem @ map Some bs @ drop (off + length bs) mem)
      else None)"

definition load_bytes :: "nat \<Rightarrow> nat \<Rightarrow> log_buffer \<Rightarrow> byte list option" where
  "load_bytes off n buf =
     (if off + n \<le> length buf then Some (take n (drop off buf)) else None)"

text \<open>
  Modelled from the spec: the byte order of the integers that the source stores through
  \<^verbatim>\<open>r_cast< uint32_t* >\<close> and \<^verbatim>\<open>r_cast< pba_t* >\<close> is the one of the machine; the record
  format of the spec fixes it as little-endian.
\<close>

fun to_le_bytes :: "nat \<Rightarrow> 'a::len word \<Rightarrow> byte list" where
  "to_le_bytes 0 w = []"
| "to_le_bytes (Suc n) w = ucast w # to_le_bytes n (drop_bit 8 w)"

fun from_le_bytes :: "byte list \<Rightarrow> 'a::len word" where
  "from_le_bytes [] = 0"
| "from_le_bytes (b # bs) = ucast b OR push_bit 8 (from_le_bytes bs)"

subsection \<open>The log store\<close>

text \<open>
  Modelled from the spec: \<^verbatim>\<open>homestore::HomeLogStore\<close> belongs to the storage library, not
  to these sources. The spec describes it as an append-only store indexed by LSN with
  \<^verbatim>\<open>write_async(lsn, bytes, cb)\<close>, \<^verbatim>\<open>foreach(start_lsn, visitor)\<close> where the visitor
  answers whether to continue, \<^verbatim>\<open>truncate(upto_lsn)\<close> and \<^verbatim>\<open>flush_sync(lsn)\<close>. The state
  is the association list of the records written (one buffer per store LSN; the first
  pair for a key counts) and the durability frontier (\<open>None\<close>: nothing flushed yet).
\<close>

record HomeLogStore =
  log_records :: "(store_lsn_t \<times> log_buffer) list"
  durable_upto :: "store_lsn_t option"

text \<open>
  Modelled from the spec: \<^verbatim>\<open>write_async\<close> stores the buffer under the given store LSN,
  replacing a record already there. The write is taken as completed; its completion
  callback only frees the buffer.
\<close>

definition logstore_write_async :: "store_lsn_t \<Rightarrow> log_buffer \<Rightarrow> HomeLogStore \<Rightarrow> HomeLogStore" where
  "logstore_write_async lsn b ls =
     ls\<lparr>log_records := (lsn, b) # filter (\<lambda>r. fst r \<noteq> lsn) (log_records ls)\<rparr>"

text \<open>
  Modelled from the spec: the store LSNs that hold a record, in ascending signed order.
\<close>

definition logstore_lsns :: "HomeLogStore \<Rightarrow> store_lsn_t list" where
  "logstore_lsns ls = sort_key sint (remdups (map fst (log_records ls)))"

text \<open>
  Modelled from the spec: the records from \<open>start_lsn\<close> inclusive, in LSN order, as
  \<^verbatim>\<open>foreach\<close> meets them. This is the Replay sentence of the spec taken by its words:
  the iteration begins at the first stored record at or after \<open>start_lsn\<close>. What the
  library does when \<open>start_lsn\<close> lies below a truncation point is not said in the spec.
\<close>

definition logstore_entries_from :: "store_lsn_t \<Rightarrow> HomeLogStore \<Rightarrow> (store_lsn_t \<times> log_buffer) list" where
  "logstore_entries_from start_lsn ls =
     List.map_filter (\<lambda>lsn. map_option (Pair lsn) (map_of (log_records ls) lsn))
       (filter (\<lambda>lsn. start_lsn \<le>s lsn) (logstore_lsns ls))"

text \<open>
  Modelled from the spec: the loop of \<^verbatim>\<open>foreach\<close>. The visitor gets the store LSN and the
  buffer of each record in turn and answers whether the iteration goes on; it threads
  its own state \<open>a\<close> and may fault. \<open>seen\<close> collects the store LSNs at which the visitor
  ran, so that the end of the iteration is visible in the result.
\<close>

fun foreach_entries ::
  "(store_lsn_t \<Rightarrow> log_buffer \<Rightarrow> 'a \<Rightarrow> fault + bool \<times> 'a) \<Rightarrow> (store_lsn_t \<times> log_buffer) list \<Rightarrow>
   store_lsn_t list \<Rightarrow> 'a \<Rightarrow> fault + store_lsn_t list \<times> 'a" where
  "foreach_entries visitor [] seen a = Inr (seen, a)"
| "foreach_entries visitor ((lsn, entry) # rest) seen a =
     (case visitor lsn entry a of
        Inl f \<Rightarrow> Inl f
      | Inr (continue, a') \<Rightarrow>
          if continue then foreach_entries visitor rest (seen @ [lsn]) a'
          else Inr (seen @ [lsn], a'))"

text \<open>Modelled from the spec: \<^verbatim>\<open>foreach(start_lsn, visitor)\<close>.\<close>

definition logstore_foreach ::
  "store_lsn_t \<Rightarrow> (store_lsn_t \<Rightarrow> log_buffer \<Rightarrow> 'a \<Rightarrow> fault + bool \<times> 'a) \<Rightarrow> HomeLogStore \<Rightarrow> 'a \<Rightarrow>
   fault + store_lsn_t list \<times> 'a" where
  "logstore_foreach start_lsn visitor ls a =
     foreach_entries visitor (logstore_entries_from start_lsn ls) [] a"

text \<open>
  Modelled from the spec: \<^verbatim>\<open>truncate(upto_lsn)\<close> removes the records at store LSNs up to
  and including \<open>upto_lsn\<close>.
\<close>

definition logstore_truncate :: "store_lsn_t \<Rightarrow> HomeLogStore \<Rightarrow> HomeLogStore" where
  "logstore_truncate upto_lsn ls =
     ls\<lparr>log_records := filter (\<lambda>r. upto_lsn <s fst r) (log_records ls)\<rparr>"

text \<open>
  Modelled from the spec: \<^verbatim>\<open>flush_sync(lsn)\<close> forces durability up to \<open>lsn\<close>; on the invalid
  sentinel LSN it does nothing. The sentinel \<^verbatim>\<open>homestore::invalid_lsn()\<close> is declared in the
  storage library; it is the parameter \<open>invalid_lsn\<close> here.
\<close>

definition logstore_flush_sync :: "store_lsn_t \<Rightarrow> store_lsn_t \<Rightarrow> HomeLogStore \<Rightarrow> HomeLogStore" where
  "logstore_flush_sync invalid_lsn upto_lsn ls =
     (if upto_lsn = invalid_lsn then ls
      else ls\<lparr>durable_upto :=
                 Some (case durable_upto ls of
                         None \<Rightarrow> upto_lsn
                       | Some d \<Rightarrow> if d \<le>s upto_lsn then upto_lsn else d)\<rparr>)"

text \<open>
  Modelled from the spec: what a flush forces. The store is durable up to a store LSN
  when the frontier has reached it.
\<close>

definition is_durable :: "HomeLogStore \<Rightarrow> store_lsn_t \<Rightarrow> bool" where
  "is_durable ls lsn = (case durable_upto ls of None \<Rightarrow> False | Some d \<Rightarrow> lsn \<le>s d)"

subsection \<open>The store object\<close>

text \<open>
  Modelled from the spec: \<^verbatim>\<open>home_rs_superblk\<close> is declared in home\_storage\_engine.h, which
  is not among the sources. The spec lists its fields as \<open>uuid\<close> (16 bytes),
  \<open>commit_lsn\<close> (i64) and \<open>free_pba_store_id\<close> (u32); the source uses exactly these. The
  field \<open>commit_lsn\<close> is called \<open>commit_lsn_field\<close>, since the member function has the
  same name.
\<close>

record home_rs_superblk =
  uuid :: "128 word"
  commit_lsn_field :: repl_lsn_t
  free_pba_store_id :: "32 word"

text \<open>
  \<^verbatim>\<open>folly::SharedMutexWritePriority\<close>, as far as one thread sees it: the number of shared
  holders and whether the lock is held exclusively. Acquiring it shared blocks while it
  is held exclusively; a call that blocks for ever has no result (\<open>None\<close>).
\<close>

record SharedMutex =
  shared_holders :: nat
  exclusive_held :: bool

definition lock_shared :: "SharedMutex \<Rightarrow> SharedMutex option" where
  "lock_shared m =
     (if exclusive_held m then None
      else Some (m\<lparr>shared_holders := Suc (shared_holders m)\<rparr>))"

definition unlock_shared :: "SharedMutex \<Rightarrow> SharedMutex" where
  "unlock_shared m = m\<lparr>shared_holders := shared_holders m - 1\<rparr>"

record HomeStateMachineStore =
  m_sb :: home_rs_superblk
  m_sb_in_mem :: home_rs_superblk
  m_sb_lock :: SharedMutex
  m_last_write_lsn :: repl_lsn_t
  m_free_pba_store :: HomeLogStore

subsection \<open>Member functions\<close>

text \<open>\<^verbatim>\<open>alloc_pbas\<close>: the body is \<^verbatim>\<open>return pba_list_t{};\<close> under a TODO comment.\<close>

definition alloc_pbas :: "32 word \<Rightarrow> pba_list_t" where
  "alloc_pbas sz = []"

text \<open>
  \<^verbatim>\<open>commit_lsn\<close>: a \<^verbatim>\<open>ReadHolder\<close> takes \<open>m_sb_lock\<close> shared for the length of the body,
  which assigns the field of the in-memory superblock.
\<close>

definition commit_lsn :: "repl_lsn_t \<Rightarrow> HomeStateMachineStore \<Rightarrow> HomeStateMachineStore option" where
  "commit_lsn lsn st =
     (case lock_shared (m_sb_lock st) of
        None \<Rightarrow> None
      | Some holder \<Rightarrow>
          (let st1 = st\<lparr>m_sb_lock := holder\<rparr>;
               st2 = st1\<lparr>m_sb_in_mem := (m_sb_in_mem st1)\<lparr>commit_lsn_field := lsn\<rparr>\<rparr>
           in Some (st2\<lparr>m_sb_lock := unlock_shared (m_sb_lock st2)\<rparr>)))"

text \<open>\<^verbatim>\<open>get_last_commit_lsn\<close>: the same lock, then the field is returned.\<close>

definition get_last_commit_lsn ::
  "HomeStateMachineStore \<Rightarrow> (repl_lsn_t \<times> HomeStateMachineStore) option" where
  "get_last_commit_lsn st =
     (case lock_shared (m_sb_lock st) of
        None \<Rightarrow> None
      | Some holder \<Rightarrow>
          (let st1 = st\<lparr>m_sb_lock := holder\<rparr>;
               ret = commit_lsn_field (m_sb_in_mem st1)
           in Some (ret, st1\<lparr>m_sb_lock := unlock_shared (m_sb_lock st1)\<rparr>)))"

text \<open>
  \<^verbatim>\<open>add_free_pba_record\<close>, first half: \<open>size_needed\<close> is a \<^verbatim>\<open>uint32_t\<close>, so the sum
  computed in \<^verbatim>\<open>size_t\<close> is cut to 32 bits, and so is the count by \<^verbatim>\<open>uint32_cast\<close>.
  The loop stores one PBA after the other through \<open>raw_ptr\<close>, which advances by eight
  bytes.
\<close>

definition size_needed :: "pba_list_t \<Rightarrow> 32 word" where
  "size_needed pbas = of_nat (4 + length pbas * 8)"

fun write_pbas :: "nat \<Rightarrow> pba_list_t \<Rightarrow> raw_mem \<Rightarrow> raw_mem option" where
  "write_pbas raw_ptr [] b = Some b"
| "write_pbas raw_ptr (pba # pbas) b =
     (case store_bytes raw_ptr (to_le_bytes 8 pba) b of
        None \<Rightarrow> None
      | Some b' \<Rightarrow> write_pbas (raw_ptr + 8) pbas b')"

definition serialize_pbas :: "pba_list_t \<Rightarrow> fault + log_buffer" where
  "serialize_pbas pbas =
     (let b = io_blob_alloc (size_needed pbas) in
      case store_bytes 0 (to_le_bytes 4 (of_nat (length pbas) :: 32 word)) b of
        None \<Rightarrow> Inl OutOfBounds
      | Some b1 \<Rightarrow>
          (case write_pbas 4 pbas b1 of
             None \<Rightarrow> Inl OutOfBounds
           | Some b2 \<Rightarrow>
               (case those b2 of
                  None \<Rightarrow> Inl Uninitialised
                | Some bytes \<Rightarrow> Inr bytes)))"

text \<open>
  \<^verbatim>\<open>add_free_pba_record\<close>, second half: \<open>m_last_write_lsn\<close> is set and the blob is written
  to the log store at \<open>to_store_lsn lsn\<close>.
\<close>

definition add_free_pba_record ::
  "repl_lsn_t \<Rightarrow> pba_list_t \<Rightarrow> HomeStateMachineStore \<Rightarrow> fault + HomeStateMachineStore" where
  "add_free_pba_record lsn pbas st =
     (case serialize_pbas pbas of
        Inl f \<Rightarrow> Inl f
      | Inr b \<Rightarrow>
          Inr (st\<lparr>m_last_write_lsn := lsn,
                  m_free_pba_store := logstore_write_async (to_store_lsn lsn) b (m_free_pba_store st)\<rparr>))"

text \<open>
  The body of the visitor in \<^verbatim>\<open>get_free_pba_records\<close> that rebuilds the list: the count
  is read at offset 0, then \<open>num_pbas\<close> values are read through \<open>raw_ptr\<close>. The counter
  \<open>i\<close> stays below \<open>num_pbas\<close>, so it never wraps.
\<close>

function read_pbas ::
  "nat \<Rightarrow> 32 word \<Rightarrow> nat \<Rightarrow> log_buffer \<Rightarrow> pba_list_t \<Rightarrow> pba_list_t option" where
  "read_pbas i num_pbas raw_ptr entry plist =
     (if i < unat num_pbas then
        (case load_bytes raw_ptr 8 entry of
           None \<Rightarrow> None
         | Some bs \<Rightarrow>
             read_pbas (i + 1) num_pbas (raw_ptr + 8) entry (plist @ [from_le_bytes bs]))
      else Some plist)"
  by pat_completeness auto
termination
  by (relation "measure (\<lambda>(i, num_pbas, raw_ptr, entry, plist). unat num_pbas - i)") auto

declare read_pbas.simps [simp del]

definition deserialize_pbas :: "log_buffer \<Rightarrow> fault + pba_list_t" where
  "deserialize_pbas entry =
     (case load_bytes 0 4 entry of
        None \<Rightarrow> Inl OutOfBounds
      | Some count_bytes \<Rightarrow>
          (case read_pbas 0 (from_le_bytes count_bytes) 4 entry [] of
             None \<Rightarrow> Inl OutOfBounds
           | Some plist \<Rightarrow> Inr plist))"

text \<open>
  The visitor that \<^verbatim>\<open>get_free_pba_records\<close> hands to \<^verbatim>\<open>foreach\<close>. The callback \<open>cb\<close> of
  the caller is a function on the caller's state \<open>u\<close>.
\<close>

definition free_pba_visitor ::
  "repl_lsn_t \<Rightarrow> (repl_lsn_t \<Rightarrow> pba_list_t \<Rightarrow> 'u \<Rightarrow> 'u) \<Rightarrow> store_lsn_t \<Rightarrow> log_buffer \<Rightarrow> 'u \<Rightarrow>
   fault + bool \<times> 'u" where
  "free_pba_visitor end_lsn cb lsn entry u =
     (let rlsn = to_repl_lsn lsn;
          ret = (rlsn <s end_lsn - 1)
      in if rlsn <s end_lsn then
           (case deserialize_pbas entry of
              Inl f \<Rightarrow> Inl f
            | Inr plist \<Rightarrow> Inr (ret, cb rlsn plist u))
         else Inr (ret, u))"

text \<open>
  \<^verbatim>\<open>get_free_pba_records\<close>: the call of \<^verbatim>\<open>foreach\<close> from \<open>to_store_lsn start_lsn\<close>. The
  result is the list of store LSNs the iteration looked at and the state of the caller
  after the calls of \<open>cb\<close>.
\<close>

definition get_free_pba_records ::
  "repl_lsn_t \<Rightarrow> repl_lsn_t \<Rightarrow> (repl_lsn_t \<Rightarrow> pba_list_t \<Rightarrow> 'u \<Rightarrow> 'u) \<Rightarrow> HomeStateMachineStore \<Rightarrow> 'u \<Rightarrow>
   fault + store_lsn_t list \<times> 'u" where
  "get_free_pba_records start_lsn end_lsn cb st u =
     logstore_foreach (to_store_lsn start_lsn) (free_pba_visitor end_lsn cb) (m_free_pba_store st) u"

text \<open>\<^verbatim>\<open>remove_free_pba_records_upto\<close>: the truncation, then \<open>m_last_write_lsn.store(0)\<close>.\<close>

definition remove_free_pba_records_upto :: "repl_lsn_t \<Rightarrow> HomeStateMachineStore \<Rightarrow> HomeStateMachineStore" where
  "remove_free_pba_records_upto lsn st =
     st\<lparr>m_free_pba_store := logstore_truncate (to_store_lsn lsn) (m_free_pba_store st),
        m_last_write_lsn := 0\<rparr>"

text \<open>
  \<^verbatim>\<open>flush_free_pba_records\<close>: the argument of \<^verbatim>\<open>flush_sync\<close> is the sentinel when
  \<open>m_last_write_lsn\<close> is zero. The first parameter stands for
  \<^verbatim>\<open>homestore::invalid_lsn()\<close>.
\<close>

definition flush_free_pba_records :: "store_lsn_t \<Rightarrow> HomeStateMachineStore \<Rightarrow> HomeStateMachineStore" where
  "flush_free_pba_records invalid_lsn st =
     (let last_lsn = m_last_write_lsn st in
      st\<lparr>m_free_pba_store :=
           logstore_flush_sync invalid_lsn
             (if last_lsn = 0 then invalid_lsn else to_store_lsn last_lsn)
             (m_free_pba_store st)\<rparr>)"

subsection \<open>Vocabulary of the statements\<close>

text \<open>The record format in the words of the spec: a u32 count, then the PBAs as u64.\<close>

definition record_bytes :: "pba_list_t \<Rightarrow> log_buffer" where
  "record_bytes pbas =
     to_le_bytes 4 (of_nat (length pbas) :: 32 word) @ concat (map (to_le_bytes 8) pbas)"

text \<open>The consensus LSNs that hold a record, ascending, and the PBA list stored at one.\<close>

definition stored_lsns :: "HomeStateMachineStore \<Rightarrow> repl_lsn_t list" where
  "stored_lsns st = map to_repl_lsn (logstore_lsns (m_free_pba_store st))"

definition stored_entry :: "HomeStateMachineStore \<Rightarrow> repl_lsn_t \<Rightarrow> log_buffer option" where
  "stored_entry st lsn = map_of (log_records (m_free_pba_store st)) (to_store_lsn lsn)"

definition stored_pbas :: "HomeStateMachineStore \<Rightarrow> repl_lsn_t \<Rightarrow> pba_list_t option" where
  "stored_pbas st lsn =
     (case stored_entry st lsn of
        None \<Rightarrow> None
      | Some entry \<Rightarrow>
          (case deserialize_pbas entry of Inl f \<Rightarrow> None | Inr plist \<Rightarrow> Some plist))"

text \<open>A journal in which every stored record holds a complete PBA list.\<close>

definition journal_ok :: "HomeStateMachineStore \<Rightarrow> bool" where
  "journal_ok st = list_all (\<lambda>lsn. stored_pbas st lsn \<noteq> None) (stored_lsns st)"

text \<open>A visitor for the examples: it notes each call.\<close>

definition note_call ::
  "repl_lsn_t \<Rightarrow> pba_list_t \<Rightarrow> (repl_lsn_t \<times> pba_list_t) list \<Rightarrow> (repl_lsn_t \<times> pba_list_t) list" where
  "note_call lsn pbas calls = calls @ [(lsn, pbas)]"

text \<open>
  States for the examples: a store without records, and the journal of scenario S6 with
  records at the consensus LSNs 1 to 5.
\<close>

definition fresh_store :: HomeStateMachineStore where
  "fresh_store =
     \<lparr>m_sb = \<lparr>uuid = 7, commit_lsn_field = 0, free_pba_store_id = 3\<rparr>,
      m_sb_in_mem = \<lparr>uuid = 7, commit_lsn_field = 0, free_pba_store_id = 3\<rparr>,
      m_sb_lock = \<lparr>shared_holders = 0, exclusive_held = False\<rparr>,
      m_last_write_lsn = 0,
      m_free_pba_store = \<lparr>log_records = [], durable_upto = None\<rparr>\<rparr>"

definition s6_store :: HomeStateMachineStore where
  "s6_store =
     fresh_store\<lparr>m_last_write_lsn := 5,
       m_free_pba_store :=
         \<lparr>log_records =
            [(4, [1, 0, 0, 0, 50, 0, 0, 0, 0, 0, 0, 0]),
             (3, [0, 0, 0, 0]),
             (2, [2, 0, 0, 0, 30, 0, 0, 0, 0, 0, 0, 0, 31, 0, 0, 0, 0, 0, 0, 0]),
             (1, [1, 0, 0, 0, 20, 0, 0, 0, 0, 0, 0, 0]),
             (0, [1, 0, 0, 0, 10, 0, 0, 0, 0, 0, 0, 0])],
          durable_upto = None\<rparr>\<rparr>"


text \<open>
  A journal after \<^verbatim>\<open>add_free_pba_record\<close> with the least LSN: the record sits at the
  greatest store LSN.
\<close>

definition wrapped_store :: HomeStateMachineStore where
  "wrapped_store =
     fresh_store\<lparr>m_last_write_lsn := int64_min,
       m_free_pba_store :=
         \<lparr>log_records = [(int64_max, [1, 0, 0, 0, 77, 0, 0, 0, 0, 0, 0, 0])],
          durable_upto = None\<rparr>\<rparr>"

section \<open>Properties\<close>

subsection \<open>Bytes and buffers\<close>

lemma length_to_le_bytes [simp]: "length (to_le_bytes n w) = n"
  by (induction n arbitrary: w) simp_all

lemma from_to_le_bytes: "from_le_bytes (to_le_bytes n w) = take_bit (8 * n) w"
proof (induction n arbitrary: w)
  case 0
  show ?case by simp
next
  case (Suc n)
  show ?case
    apply (simp add: Suc)
    apply (rule bit_word_eqI)
    apply (auto simp add: bit_simps)
    done
qed

lemma from_to_le_bytes_u64 [simp]: "from_le_bytes (to_le_bytes 8 (w :: 64 word)) = w"
  by (simp add: from_to_le_bytes take_bit_word_eq_self)

lemma from_to_le_bytes_u32 [simp]: "from_le_bytes (to_le_bytes 4 (w :: 32 word)) = w"
  by (simp add: from_to_le_bytes take_bit_word_eq_self)

lemma length_concat_le8 [simp]:
  "length (concat (map (to_le_bytes 8) (pbas :: pba_list_t))) = 8 * length pbas"
  by (induction pbas) simp_all

lemma length_record_bytes [simp]: "length (record_bytes pbas) = 4 + 8 * length pbas"
  by (simp add: record_bytes_def)

lemma those_map_Some [simp]: "those (map Some xs) = Some xs"
  by (induction xs) simp_all

lemma write_pbas_fits:
  "raw_ptr + 8 * length pbas \<le> length b \<Longrightarrow>
   write_pbas raw_ptr pbas b =
     Some (take raw_ptr b @ map Some (concat (map (to_le_bytes 8) pbas))
           @ drop (raw_ptr + 8 * length pbas) b)"
proof (induction pbas arbitrary: raw_ptr b)
  case Nil
  then show ?case by simp
next
  case (Cons pba pbas)
  let ?b' = "take raw_ptr b @ map Some (to_le_bytes 8 pba) @ drop (raw_ptr + 8) b"
  from Cons.prems have st: "store_bytes raw_ptr (to_le_bytes 8 pba) b = Some ?b'"
    by (simp add: store_bytes_def)
  have len: "length ?b' = length b" using Cons.prems by simp
  have fits: "(raw_ptr + 8) + 8 * length pbas \<le> length ?b'"
    using Cons.prems len by simp
  have tk: "take (raw_ptr + 8) ?b' = take raw_ptr b @ map Some (to_le_bytes 8 pba)"
    using Cons.prems by simp
  have "raw_ptr + 8 + 8 * length pbas = raw_ptr + 8 * length (pba # pbas)"
    by simp
  moreover have "drop (raw_ptr + 8 * length (pba # pbas)) ?b' = drop (raw_ptr + 8 * length (pba # pbas)) b"
    using Cons.prems by (simp add: ac_simps)
  ultimately have dr: "drop (raw_ptr + 8 + 8 * length pbas) ?b' = drop (raw_ptr + 8 * length (pba # pbas)) b"
    by (simp only:)
  show ?case
    using Cons.IH [OF fits] st tk dr by simp
qed

lemma write_pbas_overrun:
  "pbas \<noteq> [] \<Longrightarrow> length b < raw_ptr + 8 \<Longrightarrow> write_pbas raw_ptr pbas b = None"
  by (cases pbas) (simp_all add: store_bytes_def)

lemma unat_size_needed:
  "length pbas < 2 ^ 29 \<Longrightarrow> unat (size_needed pbas) = 4 + 8 * length pbas"
  unfolding size_needed_def unat_of_nat by simp

text \<open>
  Below \<open>2 ^ 29\<close> entries the size fits 32 bits, every store of the loop stays inside the
  blob, every byte of the blob is written, and the blob is the record of the format.
\<close>

lemma serialize_pbas_fits:
  assumes "length pbas < 2 ^ 29"
  shows "serialize_pbas pbas = Inr (record_bytes pbas)"
proof -
  let ?b = "io_blob_alloc (size_needed pbas)"
  let ?hd = "to_le_bytes 4 (of_nat (length pbas) :: 32 word)"
  have len: "length ?b = 4 + 8 * length pbas"
    by (simp add: io_blob_alloc_def unat_size_needed [OF assms])
  let ?b1 = "map Some ?hd @ drop 4 ?b"
  have st: "store_bytes 0 ?hd ?b = Some ?b1"
    by (simp add: store_bytes_def len)
  have "write_pbas 4 pbas ?b1 =
          Some (take 4 ?b1 @ map Some (concat (map (to_le_bytes 8) pbas))
                @ drop (4 + 8 * length pbas) ?b1)"
    by (rule write_pbas_fits) (simp add: len)
  then have wr: "write_pbas 4 pbas ?b1 = Some (map Some (record_bytes pbas))"
    by (simp add: len record_bytes_def)
  show ?thesis
    by (simp add: serialize_pbas_def Let_def st wr del: to_le_bytes.simps)
qed

lemma read_pbas_all:
  "raw_ptr = length pre \<Longrightarrow> unat num_pbas = i + length rest \<Longrightarrow>
   read_pbas i num_pbas raw_ptr (pre @ concat (map (to_le_bytes 8) rest) @ post) plist
     = Some (plist @ rest)"
proof (induction rest arbitrary: i raw_ptr pre plist)
  case Nil
  then show ?case by (simp add: read_pbas.simps)
next
  case (Cons pba rest)
  let ?entry = "pre @ concat (map (to_le_bytes 8) (pba # rest)) @ post"
  have ld: "load_bytes raw_ptr 8 ?entry = Some (to_le_bytes 8 pba)"
    using Cons.prems by (simp add: load_bytes_def del: to_le_bytes.simps)
  have ih: "read_pbas (i + 1) num_pbas (raw_ptr + 8)
              ((pre @ to_le_bytes 8 pba) @ concat (map (to_le_bytes 8) rest) @ post)
              (plist @ [pba]) = Some ((plist @ [pba]) @ rest)"
    by (rule Cons.IH) (use Cons.prems in simp_all)
  show ?case
    using Cons.prems ld ih
    by (subst read_pbas.simps) (simp del: to_le_bytes.simps)
qed

lemma deserialize_record_bytes:
  assumes "length pbas < 2 ^ 32"
  shows "deserialize_pbas (record_bytes pbas) = Inr pbas"
proof -
  let ?hd = "to_le_bytes 4 (of_nat (length pbas) :: 32 word)"
  have ld: "load_bytes 0 4 (record_bytes pbas) = Some ?hd"
    by (simp add: load_bytes_def record_bytes_def del: to_le_bytes.simps)
  have un: "unat (of_nat (length pbas) :: 32 word) = 0 + length pbas"
    using assms by (simp add: unat_of_nat)
  have "read_pbas 0 (of_nat (length pbas)) 4 (?hd @ concat (map (to_le_bytes 8) pbas) @ []) []
          = Some ([] @ pbas)"
    by (rule read_pbas_all [OF _ un]) simp
  then have rd: "read_pbas 0 (of_nat (length pbas)) 4 (record_bytes pbas) [] = Some pbas"
    by (simp add: record_bytes_def del: to_le_bytes.simps)
  show ?thesis
    unfolding deserialize_pbas_def ld option.case from_to_le_bytes_u32 rd ..
qed

lemma load_count_record_bytes:
  "load_bytes 0 4 (record_bytes pbas) = Some (to_le_bytes 4 (of_nat (length pbas) :: 32 word))"
  by (simp add: load_bytes_def record_bytes_def del: to_le_bytes.simps)

lemma load_pba_record_bytes:
  assumes "i < length pbas"
  shows "load_bytes (4 + 8 * i) 8 (record_bytes pbas) = Some (to_le_bytes 8 (pbas ! i))"
proof -
  have split: "pbas = take i pbas @ (pbas ! i) # drop (Suc i) pbas"
    using assms by (simp add: id_take_nth_drop)
  let ?pre = "to_le_bytes 4 (of_nat (length pbas) :: 32 word) @ concat (map (to_le_bytes 8) (take i pbas))"
  have "concat (map (to_le_bytes 8) pbas) =
          concat (map (to_le_bytes 8) (take i pbas @ (pbas ! i) # drop (Suc i) pbas))"
    using split by simp
  then have rb: "record_bytes pbas = ?pre @ to_le_bytes 8 (pbas ! i) @ concat (map (to_le_bytes 8) (drop (Suc i) pbas))"
    by (simp add: record_bytes_def del: to_le_bytes.simps)
  have lp: "length ?pre = 4 + 8 * i"
    using assms by (simp del: to_le_bytes.simps)
  show ?thesis
    unfolding rb load_bytes_def using lp
    by (simp del: to_le_bytes.simps)
qed

subsection \<open>Encoding and decoding a record\<close>

text \<open>
  Claim C2. A PBA list of length 0, 1, 2 or 1000 that is serialised the way
  \<^verbatim>\<open>add_free_pba_record\<close> does it and then read back the way the visitor of
  \<^verbatim>\<open>get_free_pba_records\<close> does it comes out as the same list: neither step faults, and
  the length, the elements and their order are kept.
\<close>

theorem free_pba_record_roundtrip:
  assumes "length pbas \<in> {0, 1, 2, 1000}"
  shows "(case serialize_pbas pbas of Inl f \<Rightarrow> Inl f | Inr b \<Rightarrow> deserialize_pbas b) = Inr pbas"
proof -
  from assms have "length pbas \<le> 1000" by auto
  then have small: "length pbas < 2 ^ 29" and fits: "length pbas < 2 ^ 32" by simp_all
  show ?thesis
    by (simp add: serialize_pbas_fits [OF small] deserialize_record_bytes [OF fits])
qed

theorem free_pba_record_roundtrip_witness:
  "length [700, 701 :: pba_t] \<in> {0, 1, 2, 1000} \<and>
   serialize_pbas [700, 701] = Inr [2, 0, 0, 0, 188, 2, 0, 0, 0, 0, 0, 0, 189, 2, 0, 0, 0, 0, 0, 0] \<and>
   deserialize_pbas [2, 0, 0, 0, 188, 2, 0, 0, 0, 0, 0, 0, 189, 2, 0, 0, 0, 0, 0, 0] = Inr [700, 701]"
proof -
  have h: "length [700, 701 :: pba_t] \<in> {0, 1, 2, 1000}" by simp
  have s: "serialize_pbas [700, 701] = Inr [2, 0, 0, 0, 188, 2, 0, 0, 0, 0, 0, 0, 189, 2, 0, 0, 0, 0, 0, 0]"
    by code_simp
  from free_pba_record_roundtrip [OF h] s h show ?thesis by simp
qed

subsection \<open>Appending a record\<close>

text \<open>
  Claim C3, amended. For every LSN and every PBA list of fewer than \<open>2 ^ 29\<close> entries
  (so that \<open>4 + 8 * length pbas\<close> fits the 32-bit size of the blob),
  \<^verbatim>\<open>add_free_pba_record\<close> builds a buffer of exactly \<open>4 + 8 * length pbas\<close> bytes that holds
  the count as a u32 at offset 0 and the PBAs as u64 at the offsets 4, 12, ..., sets
  \<open>m_last_write_lsn\<close> to the LSN, and writes the buffer to the log store at the store LSN
  \<open>lsn - 1\<close>, whose consensus LSN is \<open>lsn\<close> again.
\<close>
theorem add_free_pba_record_layout:
  assumes "length pbas < 2 ^ 29"
  shows "add_free_pba_record lsn pbas st =
           Inr (st\<lparr>m_last_write_lsn := lsn,
                   m_free_pba_store :=
                     logstore_write_async (lsn - 1) (record_bytes pbas) (m_free_pba_store st)\<rparr>)
         \<and> length (record_bytes pbas) = 4 + 8 * length pbas
         \<and> map_option from_le_bytes (load_bytes 0 4 (record_bytes pbas))
             = Some (of_nat (length pbas) :: 32 word)
         \<and> unat (of_nat (length pbas) :: 32 word) = length pbas
         \<and> (\<forall>i < length pbas.
               map_option from_le_bytes (load_bytes (4 + 8 * i) 8 (record_bytes pbas))
                 = Some (pbas ! i))
         \<and> map_of (log_records (logstore_write_async (lsn - 1) (record_bytes pbas)
                      (m_free_pba_store st))) (lsn - 1) = Some (record_bytes pbas)
         \<and> to_repl_lsn (lsn - 1) = lsn"
proof -
  have cnt: "unat (of_nat (length pbas) :: 32 word) = length pbas"
    using assms by (simp add: unat_of_nat)
  have pb: "\<forall>i < length pbas.
              map_option from_le_bytes (load_bytes (4 + 8 * i) 8 (record_bytes pbas)) = Some (pbas ! i)"
    by (simp add: load_pba_record_bytes del: to_le_bytes.simps)
  have hd: "map_option from_le_bytes (load_bytes 0 4 (record_bytes pbas))
              = Some (of_nat (length pbas) :: 32 word)"
    by (simp add: load_count_record_bytes del: to_le_bytes.simps)
  have run: "add_free_pba_record lsn pbas st =
           Inr (st\<lparr>m_last_write_lsn := lsn,
                   m_free_pba_store :=
                     logstore_write_async (lsn - 1) (record_bytes pbas) (m_free_pba_store st)\<rparr>)"
    by (simp add: add_free_pba_record_def serialize_pbas_fits [OF assms] to_store_lsn_def)
  have at: "map_of (log_records (logstore_write_async (lsn - 1) (record_bytes pbas)
                      (m_free_pba_store st))) (lsn - 1) = Some (record_bytes pbas)"
    by (simp add: logstore_write_async_def)
  show ?thesis
    using cnt pb hd run at by (simp add: to_repl_lsn_def)
qed

theorem add_free_pba_record_layout_witness:
  "length [700, 701 :: pba_t] < 2 ^ 29
   \<and> add_free_pba_record 5 [700, 701] fresh_store =
       Inr (fresh_store\<lparr>m_last_write_lsn := 5,
              m_free_pba_store :=
                \<lparr>log_records =
                   [(4, [2, 0, 0, 0, 188, 2, 0, 0, 0, 0, 0, 0, 189, 2, 0, 0, 0, 0, 0, 0])],
                 durable_upto = None\<rparr>\<rparr>)
   \<and> map_option from_le_bytes (load_bytes (4 + 8 * 1) 8 (record_bytes [700, 701]))
       = Some (701 :: pba_t)"
proof -
  have h: "length [700, 701 :: pba_t] < 2 ^ 29" by simp
  have b: "record_bytes [700, 701] = [2, 0, 0, 0, 188, 2, 0, 0, 0, 0, 0, 0, 189, 2, 0, 0, 0, 0, 0, 0]"
    by code_simp
  have w: "logstore_write_async (5 - 1)
             [2, 0, 0, 0, 188, 2, 0, 0, 0, 0, 0, 0, 189, 2, 0, 0, 0, 0, 0, 0]
             (m_free_pba_store fresh_store) =
           \<lparr>log_records =
              [(4, [2, 0, 0, 0, 188, 2, 0, 0, 0, 0, 0, 0, 189, 2, 0, 0, 0, 0, 0, 0])],
            durable_upto = None\<rparr>"
    by (simp add: logstore_write_async_def fresh_store_def)
  note t = add_free_pba_record_layout [OF h, of 5 fresh_store]
  from t have run: "add_free_pba_record 5 [700, 701] fresh_store =
           Inr (fresh_store\<lparr>m_last_write_lsn := 5,
                   m_free_pba_store :=
                     logstore_write_async (5 - 1) (record_bytes [700, 701])
                       (m_free_pba_store fresh_store)\<rparr>)"
    by (rule conjunct1)
  from t have q: "\<forall>i < length [700, 701 :: pba_t].
               map_option from_le_bytes (load_bytes (4 + 8 * i) 8 (record_bytes [700, 701]))
                 = Some ([700, 701 :: pba_t] ! i)"
    by blast
  have l: "(1 :: nat) < length [700, 701 :: pba_t]" by simp
  from q [rule_format, OF l]
  have at1: "map_option from_le_bytes (load_bytes (4 + 8 * 1) 8 (record_bytes [700, 701]))
                 = Some ([700, 701 :: pba_t] ! 1)" .
  from run at1 h show ?thesis
    unfolding b w by simp
qed

text \<open>
  The claim as it was stated, for every PBA list, fails at \<open>2 ^ 29\<close> entries: the size
  \<open>2 ^ 32 + 4\<close> is cut to 4, the blob has four bytes, and the first store of the loop
  leaves it.
\<close>

theorem add_free_pba_record_overrun:
  "unat (size_needed (replicate 536870912 0)) = 4
   \<and> 4 + 8 * length (replicate 536870912 (0 :: pba_t)) = 4294967300
   \<and> add_free_pba_record 1 (replicate 536870912 0) fresh_store = Inl OutOfBounds"
proof -
  have sz: "unat (size_needed (replicate 536870912 (0 :: pba_t))) = 4"
    by (simp add: size_needed_def)
  have "serialize_pbas (replicate 536870912 0) = Inl OutOfBounds"
    apply (simp add: serialize_pbas_def Let_def io_blob_alloc_def sz store_bytes_def
                del: to_le_bytes.simps)
    apply (subst write_pbas_overrun)
      apply simp_all
    done
  then show ?thesis
    using sz by (simp add: add_free_pba_record_def)
qed

subsection \<open>Allocation\<close>

text \<open>
  Claim C4 asks \<^verbatim>\<open>alloc_pbas\<close> for a non-empty list of PBAs that covers \<open>size\<close> bytes, or
  the failure \<^verbatim>\<open>OutOfSpace\<close>. The function as it stands returns the empty list for every
  size and has no way to fail.
\<close>
theorem alloc_pbas_returns_nothing: "alloc_pbas sz = []"
  by (simp add: alloc_pbas_def)

subsection \<open>The commit LSN\<close>

lemma unlock_lock_shared: "lock_shared m = Some h \<Longrightarrow> unlock_shared h = m"
  by (auto simp: lock_shared_def unlock_shared_def split: if_splits)

lemma lock_shared_free: "\<not> exclusive_held m \<Longrightarrow> \<exists>h. lock_shared m = Some h"
  by (simp add: lock_shared_def)

lemma commit_lsn_free:
  assumes "\<not> exclusive_held (m_sb_lock st)"
  shows "commit_lsn lsn st = Some (st\<lparr>m_sb_in_mem := (m_sb_in_mem st)\<lparr>commit_lsn_field := lsn\<rparr>\<rparr>)"
proof -
  from lock_shared_free [OF assms] obtain h where h: "lock_shared (m_sb_lock st) = Some h" ..
  show ?thesis
    by (simp add: commit_lsn_def h Let_def unlock_lock_shared [OF h])
qed

lemma get_last_commit_lsn_free:
  assumes "\<not> exclusive_held (m_sb_lock st)"
  shows "get_last_commit_lsn st = Some (commit_lsn_field (m_sb_in_mem st), st)"
proof -
  from lock_shared_free [OF assms] obtain h where h: "lock_shared (m_sb_lock st) = Some h" ..
  show ?thesis
    by (simp add: get_last_commit_lsn_def h Let_def unlock_lock_shared [OF h])
qed

text \<open>
  Claim C7. \<^verbatim>\<open>commit_lsn lsn\<close> changes the in-memory superblock so that a following
  \<^verbatim>\<open>get_last_commit_lsn\<close> returns \<open>lsn\<close>; \<open>uuid\<close>, \<open>free_pba_store_id\<close> and everything
  else in the store stay as they were. Both functions take \<open>m_sb_lock\<close> in shared mode:
  they return exactly when the shared lock can be had, that is when nobody holds the
  lock exclusively, and they leave the lock as they found it.
\<close>

theorem commit_lsn_frame:
  "(\<not> exclusive_held (m_sb_lock st) \<longrightarrow>
      (\<exists>st'. commit_lsn lsn st = Some st'
         \<and> get_last_commit_lsn st' = Some (lsn, st')
         \<and> uuid (m_sb_in_mem st') = uuid (m_sb_in_mem st)
         \<and> free_pba_store_id (m_sb_in_mem st') = free_pba_store_id (m_sb_in_mem st)
         \<and> st' = st\<lparr>m_sb_in_mem := (m_sb_in_mem st)\<lparr>commit_lsn_field := lsn\<rparr>\<rparr>))
   \<and> (commit_lsn lsn st = None \<longleftrightarrow> lock_shared (m_sb_lock st) = None)
   \<and> (get_last_commit_lsn st = None \<longleftrightarrow> lock_shared (m_sb_lock st) = None)
   \<and> (lock_shared (m_sb_lock st) = None \<longleftrightarrow> exclusive_held (m_sb_lock st))"
proof -
  have a: "\<not> exclusive_held (m_sb_lock st) \<longrightarrow>
      (\<exists>st'. commit_lsn lsn st = Some st'
         \<and> get_last_commit_lsn st' = Some (lsn, st')
         \<and> uuid (m_sb_in_mem st') = uuid (m_sb_in_mem st)
         \<and> free_pba_store_id (m_sb_in_mem st') = free_pba_store_id (m_sb_in_mem st)
         \<and> st' = st\<lparr>m_sb_in_mem := (m_sb_in_mem st)\<lparr>commit_lsn_field := lsn\<rparr>\<rparr>)"
  proof
    assume free: "\<not> exclusive_held (m_sb_lock st)"
    let ?st' = "st\<lparr>m_sb_in_mem := (m_sb_in_mem st)\<lparr>commit_lsn_field := lsn\<rparr>\<rparr>"
    have free': "\<not> exclusive_held (m_sb_lock ?st')" using free by simp
    have "get_last_commit_lsn ?st' = Some (lsn, ?st')"
      using get_last_commit_lsn_free [OF free'] by simp
    with commit_lsn_free [OF free, of lsn]
    show "\<exists>st'. commit_lsn lsn st = Some st'
         \<and> get_last_commit_lsn st' = Some (lsn, st')
         \<and> uuid (m_sb_in_mem st') = uuid (m_sb_in_mem st)
         \<and> free_pba_store_id (m_sb_in_mem st') = free_pba_store_id (m_sb_in_mem st)
         \<and> st' = st\<lparr>m_sb_in_mem := (m_sb_in_mem st)\<lparr>commit_lsn_field := lsn\<rparr>\<rparr>"
      by simp
  qed
  have b: "commit_lsn lsn st = None \<longleftrightarrow> lock_shared (m_sb_lock st) = None"
    by (simp add: commit_lsn_def Let_def split: option.splits)
  have c: "get_last_commit_lsn st = None \<longleftrightarrow> lock_shared (m_sb_lock st) = None"
    by (simp add: get_last_commit_lsn_def Let_def split: option.splits)
  have d: "lock_shared (m_sb_lock st) = None \<longleftrightarrow> exclusive_held (m_sb_lock st)"
    by (simp add: lock_shared_def)
  from a b c d show ?thesis by blast
qed

theorem commit_lsn_frame_witness:
  "\<not> exclusive_held (m_sb_lock fresh_store)
   \<and> commit_lsn 42 fresh_store =
       Some (fresh_store\<lparr>m_sb_in_mem := \<lparr>uuid = 7, commit_lsn_field = 42, free_pba_store_id = 3\<rparr>\<rparr>)
   \<and> get_last_commit_lsn
       (fresh_store\<lparr>m_sb_in_mem := \<lparr>uuid = 7, commit_lsn_field = 42, free_pba_store_id = 3\<rparr>\<rparr>)
       = Some (42, fresh_store\<lparr>m_sb_in_mem := \<lparr>uuid = 7, commit_lsn_field = 42, free_pba_store_id = 3\<rparr>\<rparr>)
   \<and> commit_lsn 42 (fresh_store\<lparr>m_sb_lock := \<lparr>shared_holders = 0, exclusive_held = True\<rparr>\<rparr>) = None"
proof -
  have h: "\<not> exclusive_held (m_sb_lock fresh_store)" by (simp add: fresh_store_def)
  have e: "fresh_store\<lparr>m_sb_in_mem := (m_sb_in_mem fresh_store)\<lparr>commit_lsn_field := 42\<rparr>\<rparr>
           = fresh_store\<lparr>m_sb_in_mem := \<lparr>uuid = 7, commit_lsn_field = 42, free_pba_store_id = 3\<rparr>\<rparr>"
    by (simp add: fresh_store_def)
  have x: "lock_shared (m_sb_lock (fresh_store\<lparr>m_sb_lock := \<lparr>shared_holders = 0, exclusive_held = True\<rparr>\<rparr>)) = None"
    by (simp add: lock_shared_def)
  from commit_lsn_frame [of fresh_store 42] h e
       commit_lsn_frame [of "fresh_store\<lparr>m_sb_lock := \<lparr>shared_holders = 0, exclusive_held = True\<rparr>\<rparr>" 42] x
  show ?thesis by auto
qed

subsection \<open>Flushing the journal\<close>

text \<open>
  Claim C6. When \<open>m_last_write_lsn\<close> is not zero, \<^verbatim>\<open>flush_free_pba_records\<close> calls
  \<^verbatim>\<open>flush_sync\<close> of the log store with the store LSN \<open>m_last_write_lsn - 1\<close>, after which
  the store is durable up to that store LSN (the log store takes the sentinel value
  itself, which is no store LSN, as no request). When \<open>m_last_write_lsn\<close> is zero, the
  call is made with the invalid sentinel LSN and changes nothing.
\<close>

theorem flush_free_pba_records_target:
  "(m_last_write_lsn st \<noteq> 0 \<longrightarrow>
      flush_free_pba_records invalid_lsn st =
        st\<lparr>m_free_pba_store :=
             logstore_flush_sync invalid_lsn (m_last_write_lsn st - 1) (m_free_pba_store st)\<rparr>
      \<and> (m_last_write_lsn st - 1 \<noteq> invalid_lsn \<longrightarrow>
           is_durable (m_free_pba_store (flush_free_pba_records invalid_lsn st))
             (m_last_write_lsn st - 1)))
   \<and> (m_last_write_lsn st = 0 \<longrightarrow>
        flush_free_pba_records invalid_lsn st =
          st\<lparr>m_free_pba_store :=
               logstore_flush_sync invalid_lsn invalid_lsn (m_free_pba_store st)\<rparr>
        \<and> flush_free_pba_records invalid_lsn st = st)"
  by (auto simp add: flush_free_pba_records_def Let_def to_store_lsn_def logstore_flush_sync_def
        is_durable_def word_sle_eq split: option.splits)

theorem flush_free_pba_records_target_witness:
  "m_last_write_lsn s6_store \<noteq> 0 \<and> m_last_write_lsn s6_store - 1 \<noteq> - 1
   \<and> durable_upto (m_free_pba_store (flush_free_pba_records (- 1) s6_store)) = Some 4
   \<and> is_durable (m_free_pba_store (flush_free_pba_records (- 1) s6_store)) 4
   \<and> m_last_write_lsn fresh_store = 0
   \<and> flush_free_pba_records (- 1) fresh_store = fresh_store"
proof -
  have h1: "m_last_write_lsn s6_store \<noteq> 0" "m_last_write_lsn s6_store - 1 \<noteq> - 1"
       "m_last_write_lsn s6_store - 1 = 4"
    by (simp_all add: s6_store_def)
  have h2: "m_last_write_lsn fresh_store = 0" by (simp add: fresh_store_def)
  have d: "durable_upto (logstore_flush_sync (- 1) 4 (m_free_pba_store s6_store)) = Some 4"
    by (simp add: logstore_flush_sync_def s6_store_def)
  from flush_free_pba_records_target [of s6_store "- 1"] h1(1,2)
  have "flush_free_pba_records (- 1) s6_store =
        s6_store\<lparr>m_free_pba_store :=
          logstore_flush_sync (- 1) (m_last_write_lsn s6_store - 1) (m_free_pba_store s6_store)\<rparr>"
    and "is_durable (m_free_pba_store (flush_free_pba_records (- 1) s6_store))
          (m_last_write_lsn s6_store - 1)"
    by blast+
  then have run: "flush_free_pba_records (- 1) s6_store =
        s6_store\<lparr>m_free_pba_store := logstore_flush_sync (- 1) 4 (m_free_pba_store s6_store)\<rparr>"
    and dur: "is_durable (m_free_pba_store (flush_free_pba_records (- 1) s6_store)) 4"
    unfolding h1(3) .
  from flush_free_pba_records_target [of fresh_store "- 1"] h2
  have noop: "flush_free_pba_records (- 1) fresh_store = fresh_store"
    by blast
  have "durable_upto (m_free_pba_store (flush_free_pba_records (- 1) s6_store)) = Some 4"
    unfolding run using d by simp
  with dur noop h1 h2 show ?thesis by simp
qed

subsection \<open>Signed 64-bit arithmetic\<close>

lemma sint_int64_min: "sint int64_min = - (2 ^ 63)"
  by (simp add: int64_min_def)

lemma sint_int64_max: "sint int64_max = 2 ^ 63 - 1"
  by (simp add: int64_max_def)

lemma sint_bounds64: "- (2 ^ 63) \<le> sint (k :: 64 word)" "sint (k :: 64 word) < 2 ^ 63"
  using sint_ge [of k] sint_lt [of k] by simp_all

lemma sint_pred64:
  assumes "k \<noteq> int64_min"
  shows "sint (k - 1 :: 64 word) = sint k - 1"
proof -
  have "sint k \<noteq> sint int64_min"
    using assms by (simp add: word_eq_iff_signed [where 'a = int])
  then have "- (2 ^ 63) < sint k"
    using sint_bounds64(1) [of k] by (simp add: sint_int64_min)
  then have "signed_take_bit 63 (sint k - 1) = sint k - 1"
    using sint_bounds64(2) [of k] by (intro signed_take_bit_int_eq_self) simp_all
  then show ?thesis
    by (simp add: sint_word_ariths)
qed

lemma sint_succ64:
  assumes "k \<noteq> int64_max"
  shows "sint (k + 1 :: 64 word) = sint k + 1"
proof -
  have "sint k \<noteq> sint int64_max"
    using assms by (simp add: word_eq_iff_signed [where 'a = int])
  then have "sint k < 2 ^ 63 - 1"
    using sint_bounds64(2) [of k] by (simp add: sint_int64_max)
  then have "signed_take_bit 63 (sint k + 1) = sint k + 1"
    using sint_bounds64(1) [of k] by (intro signed_take_bit_int_eq_self) simp_all
  then show ?thesis
    by (simp add: sint_word_ariths)
qed

lemma int64_min_least: "\<not> k <s int64_min"
  using sint_bounds64(1) [of k] by (simp add: word_sless_alt sint_int64_min)

lemma to_repl_lsn_min: "to_repl_lsn k = int64_min \<longleftrightarrow> k = int64_max"
proof
  assume "to_repl_lsn k = int64_min"
  then have "k + 1 - 1 = int64_min - 1" by (simp add: to_repl_lsn_def)
  then show "k = int64_max" by (simp add: int64_min_def int64_max_def)
next
  assume "k = int64_max"
  then show "to_repl_lsn k = int64_min"
    by (simp add: to_repl_lsn_def int64_min_def int64_max_def)
qed

lemma sint_to_repl_lsn: "k \<noteq> int64_max \<Longrightarrow> sint (to_repl_lsn k) = sint k + 1"
  by (simp add: to_repl_lsn_def sint_succ64)

lemma sint_to_store_lsn: "lsn \<noteq> int64_min \<Longrightarrow> sint (to_store_lsn lsn) = sint lsn - 1"
  by (simp add: to_store_lsn_def sint_pred64)

lemma to_repl_lsn_inj [simp]: "to_repl_lsn a = to_repl_lsn b \<longleftrightarrow> a = b"
  by (simp add: to_repl_lsn_def)

lemma store_repl_lsn [simp]: "to_store_lsn (to_repl_lsn k) = k"
  by (simp add: to_store_lsn_def to_repl_lsn_def)

lemma repl_store_lsn [simp]: "to_repl_lsn (to_store_lsn lsn) = lsn"
  by (simp add: to_store_lsn_def to_repl_lsn_def)

subsection \<open>Flushing after a truncation\<close>

lemma map_of_filter_fst:
  "map_of (filter (\<lambda>r. P (fst r)) xs) k = (if P k then map_of xs k else None)"
  by (induction xs) auto

lemma above_truncation:
  assumes "k \<noteq> int64_min" and "k <s lsn"
  shows "to_store_lsn k <s to_store_lsn lsn"
proof -
  from assms(2) have "lsn \<noteq> int64_min"
    using int64_min_least [of k] by auto
  with assms show ?thesis
    by (simp add: word_sless_alt sint_to_store_lsn)
qed

text \<open>
  Claim C10. After \<^verbatim>\<open>remove_free_pba_records_upto k\<close>, whatever the operations before it
  were, \<^verbatim>\<open>flush_free_pba_records\<close> calls the flush with the invalid sentinel LSN and
  changes nothing, because the truncation has set \<open>m_last_write_lsn\<close> to zero. The
  durability frontier is where it was before the truncation, and for \<open>k\<close> above the least
  64-bit value the records above \<open>k\<close> are still in the store: a record above \<open>k\<close> that
  was not durable is not durable after the flush either.
\<close>

theorem flush_after_truncate_is_noop:
  "flush_free_pba_records invalid_lsn (remove_free_pba_records_upto k st) =
     (remove_free_pba_records_upto k st)
       \<lparr>m_free_pba_store :=
          logstore_flush_sync invalid_lsn invalid_lsn
            (m_free_pba_store (remove_free_pba_records_upto k st))\<rparr>
   \<and> flush_free_pba_records invalid_lsn (remove_free_pba_records_upto k st)
       = remove_free_pba_records_upto k st
   \<and> durable_upto (m_free_pba_store
        (flush_free_pba_records invalid_lsn (remove_free_pba_records_upto k st)))
       = durable_upto (m_free_pba_store st)
   \<and> (k \<noteq> int64_min \<longrightarrow>
        (\<forall>lsn. k <s lsn \<longrightarrow>
           stored_entry (flush_free_pba_records invalid_lsn (remove_free_pba_records_upto k st)) lsn
             = stored_entry st lsn))"
proof -
  let ?st' = "remove_free_pba_records_upto k st"
  have noop: "flush_free_pba_records invalid_lsn ?st' = ?st'"
    by (simp add: flush_free_pba_records_def remove_free_pba_records_upto_def Let_def
          logstore_flush_sync_def)
  have call: "flush_free_pba_records invalid_lsn ?st' =
     ?st'\<lparr>m_free_pba_store := logstore_flush_sync invalid_lsn invalid_lsn (m_free_pba_store ?st')\<rparr>"
    by (simp add: flush_free_pba_records_def remove_free_pba_records_upto_def Let_def)
  have dur: "durable_upto (m_free_pba_store (flush_free_pba_records invalid_lsn ?st'))
               = durable_upto (m_free_pba_store st)"
    unfolding noop by (simp add: remove_free_pba_records_upto_def logstore_truncate_def)
  have kept: "stored_entry (flush_free_pba_records invalid_lsn ?st') lsn = stored_entry st lsn"
    if "k \<noteq> int64_min" and "k <s lsn" for lsn
    unfolding noop using above_truncation [OF that]
    by (simp add: stored_entry_def remove_free_pba_records_upto_def logstore_truncate_def
          map_of_filter_fst)
  from noop call dur kept show ?thesis by blast
qed

theorem flush_after_truncate_is_noop_witness:
  "(3 :: 64 word) \<noteq> int64_min \<and> (3 :: 64 word) <s 5
   \<and> stored_entry s6_store 5 = Some [1, 0, 0, 0, 50, 0, 0, 0, 0, 0, 0, 0]
   \<and> \<not> is_durable (m_free_pba_store s6_store) (to_store_lsn 5)
   \<and> stored_entry (flush_free_pba_records (- 1) (remove_free_pba_records_upto 3 s6_store)) 5
       = Some [1, 0, 0, 0, 50, 0, 0, 0, 0, 0, 0, 0]
   \<and> \<not> is_durable (m_free_pba_store
          (flush_free_pba_records (- 1) (remove_free_pba_records_upto 3 s6_store))) (to_store_lsn 5)
   \<and> flush_free_pba_records (- 1) (remove_free_pba_records_upto 3 s6_store)
       = remove_free_pba_records_upto 3 s6_store"
proof -
  have h: "(3 :: 64 word) \<noteq> int64_min" "(3 :: 64 word) <s 5"
    by (simp_all add: int64_min_def word_sless_alt)
  have e: "stored_entry s6_store 5 = Some [1, 0, 0, 0, 50, 0, 0, 0, 0, 0, 0, 0]"
    by (simp add: stored_entry_def s6_store_def to_store_lsn_def)
  have d: "durable_upto (m_free_pba_store s6_store) = None"
    by (simp add: s6_store_def)
  note t = flush_after_truncate_is_noop [of "- 1" 3 s6_store]
  from t have noop: "flush_free_pba_records (- 1) (remove_free_pba_records_upto 3 s6_store)
       = remove_free_pba_records_upto 3 s6_store"
    by blast
  from t have "durable_upto (m_free_pba_store
        (flush_free_pba_records (- 1) (remove_free_pba_records_upto 3 s6_store)))
        = durable_upto (m_free_pba_store s6_store)"
    by blast
  with d have dur: "durable_upto (m_free_pba_store
        (flush_free_pba_records (- 1) (remove_free_pba_records_upto 3 s6_store))) = None"
    by simp
  from t h have kept: "stored_entry (flush_free_pba_records (- 1) (remove_free_pba_records_upto 3 s6_store)) 5
           = stored_entry s6_store 5"
    by blast
  show ?thesis
    using h noop dur kept e d by (simp add: is_durable_def)
qed

subsection \<open>Replaying the journal\<close>

lemma sorted_logstore_lsns [simp]: "sorted (map sint (logstore_lsns ls))"
  by (simp add: logstore_lsns_def)

lemma distinct_logstore_lsns [simp]: "distinct (logstore_lsns ls)"
  by (simp add: logstore_lsns_def)

lemma set_logstore_lsns: "set (logstore_lsns ls) = fst ` set (log_records ls)"
  by (simp add: logstore_lsns_def)

lemma map_filter_total:
  "(\<And>x. x \<in> set xs \<Longrightarrow> f x = Some (g x)) \<Longrightarrow> List.map_filter f xs = map g xs"
  by (induction xs) simp_all

lemma map_of_fst_image:
  "k \<in> fst ` set xs \<Longrightarrow> \<exists>v. map_of xs k = Some v"
  by (metis domIff dom_map_of_conv_image_fst option.exhaust)

lemma logstore_entries_from_eq:
  "logstore_entries_from start_lsn ls =
     map (\<lambda>k. (k, the (map_of (log_records ls) k)))
       (filter (\<lambda>k. start_lsn \<le>s k) (logstore_lsns ls))"
  unfolding logstore_entries_from_def
proof (rule map_filter_total)
  fix k
  assume "k \<in> set (filter (\<lambda>k. start_lsn \<le>s k) (logstore_lsns ls))"
  then have "k \<in> fst ` set (log_records ls)" by (simp add: set_logstore_lsns)
  from map_of_fst_image [OF this] obtain v where "map_of (log_records ls) k = Some v" ..
  then show "map_option (Pair k) (map_of (log_records ls) k)
               = Some (k, the (map_of (log_records ls) k))"
    by simp
qed

lemma sorted_distinct_Cons_less:
  assumes "sorted (map sint (k # ks))" and "distinct (k # ks)" and "k' \<in> set ks"
  shows "sint k < sint (k' :: 64 word)"
proof -
  from assms(1,3) have "sint k \<le> sint k'" by auto
  moreover from assms(2,3) have "k \<noteq> k'" by auto
  then have "sint k \<noteq> sint k'" by (simp add: word_eq_iff_signed [where 'a = int])
  ultimately show ?thesis by simp
qed

text \<open>
  The loop of \<^verbatim>\<open>foreach\<close> under the visitor, over records in ascending order none of
  which sits at the greatest store LSN.
\<close>

lemma foreach_free_pba_visitor:
  assumes "sorted (map sint ks)" and "distinct ks" and "int64_max \<notin> set ks"
    and "end_lsn \<noteq> int64_min"
    and "\<And>k. k \<in> set ks \<Longrightarrow> to_repl_lsn k <s end_lsn \<Longrightarrow> deserialize_pbas (g k) = Inr (p k)"
  shows "foreach_entries (free_pba_visitor end_lsn cb) (map (\<lambda>k. (k, g k)) ks) seen u =
           Inr (seen @ takeWhile (\<lambda>k. to_repl_lsn k <s end_lsn - 1) ks
                     @ take 1 (dropWhile (\<lambda>k. to_repl_lsn k <s end_lsn - 1) ks),
                fold (\<lambda>k. cb (to_repl_lsn k) (p k)) (filter (\<lambda>k. to_repl_lsn k <s end_lsn) ks) u)"
  using assms
proof (induction ks arbitrary: seen u)
  case Nil
  then show ?case by simp
next
  case (Cons k ks)
  have srt: "sorted (map sint ks)" and dst: "distinct ks" and top: "int64_max \<notin> set ks"
    and ktop: "k \<noteq> int64_max"
    using Cons.prems(1,2,3) by auto
  have dec: "\<And>k'. k' \<in> set ks \<Longrightarrow> to_repl_lsn k' <s end_lsn \<Longrightarrow> deserialize_pbas (g k') = Inr (p k')"
    using Cons.prems(5) by simp
  have e1: "sint (end_lsn - 1) = sint end_lsn - 1"
    using Cons.prems(4) by (rule sint_pred64)
  show ?case
  proof (cases "to_repl_lsn k <s end_lsn - 1")
    case True
    then have emit: "to_repl_lsn k <s end_lsn"
      by (simp add: word_sless_alt e1)
    have d: "deserialize_pbas (g k) = Inr (p k)"
      using Cons.prems(5) [of k] emit by simp
    have v: "free_pba_visitor end_lsn cb k (g k) u = Inr (True, cb (to_repl_lsn k) (p k) u)"
      using True emit d by (simp add: free_pba_visitor_def)
    show ?thesis
      using True emit v
        Cons.IH [OF srt dst top Cons.prems(4) dec, of "seen @ [k]" "cb (to_repl_lsn k) (p k) u"]
      by simp
  next
    case False
    have later: "\<not> to_repl_lsn k' <s end_lsn" if "k' \<in> set ks" for k'
    proof -
      from Cons.prems(1,2) that have "sint k < sint k'" by (rule sorted_distinct_Cons_less)
      moreover from that top have "k' \<noteq> int64_max" by auto
      ultimately have "sint (to_repl_lsn k) < sint (to_repl_lsn k')"
        using ktop by (simp add: sint_to_repl_lsn)
      with False show ?thesis by (simp add: word_sless_alt e1)
    qed
    then have none: "filter (\<lambda>k. to_repl_lsn k <s end_lsn) ks = []"
      by (simp add: filter_empty_conv)
    show ?thesis
    proof (cases "to_repl_lsn k <s end_lsn")
      case True
      have d: "deserialize_pbas (g k) = Inr (p k)"
        using Cons.prems(5) [of k] True by simp
      have v: "free_pba_visitor end_lsn cb k (g k) u = Inr (False, cb (to_repl_lsn k) (p k) u)"
        using False True d by (simp add: free_pba_visitor_def)
      show ?thesis
        using False True v none by simp
    next
      case nemit: False
      have v: "free_pba_visitor end_lsn cb k (g k) u = Inr (False, u)"
        using False nemit by (simp add: free_pba_visitor_def)
      show ?thesis
        using False nemit v none by simp
    qed
  qed
qed

text \<open>The loop when no record it meets lies below \<open>end_lsn\<close>: the callback is never run.\<close>

lemma foreach_no_emit:
  assumes "\<And>k b. (k, b) \<in> set es \<Longrightarrow> \<not> to_repl_lsn k <s end_lsn"
  shows "\<exists>seen'. foreach_entries (free_pba_visitor end_lsn cb) es seen u = Inr (seen', u)"
  using assms
proof (induction es arbitrary: seen)
  case Nil
  then show ?case by simp
next
  case (Cons e es)
  obtain k b where e: "e = (k, b)" by (cases e)
  from Cons.prems [of k b] e have "\<not> to_repl_lsn k <s end_lsn" by simp
  then have v: "free_pba_visitor end_lsn cb k b u = Inr (to_repl_lsn k <s end_lsn - 1, u)"
    by (simp add: free_pba_visitor_def Let_def)
  have "\<exists>seen'. foreach_entries (free_pba_visitor end_lsn cb) es (seen @ [k]) u = Inr (seen', u)"
    by (rule Cons.IH) (use Cons.prems in auto)
  then show ?case
    unfolding e using v by auto
qed

lemma no_wrapped_record:
  "int64_min \<notin> set (stored_lsns st) \<longleftrightarrow> int64_max \<notin> set (logstore_lsns (m_free_pba_store st))"
proof -
  have "int64_min \<in> set (stored_lsns st)
          \<longleftrightarrow> int64_min \<in> to_repl_lsn ` set (logstore_lsns (m_free_pba_store st))"
    by (simp add: stored_lsns_def)
  also have "\<dots> \<longleftrightarrow> int64_max \<in> set (logstore_lsns (m_free_pba_store st))"
    by (metis (no_types, lifting) image_iff to_repl_lsn_min)
  finally show ?thesis by simp
qed

lemma stored_lsns_from:
  assumes "start_lsn \<noteq> int64_min" and "int64_min \<notin> set (stored_lsns st)"
  shows "filter (\<lambda>lsn. start_lsn \<le>s lsn) (stored_lsns st) =
     map to_repl_lsn (filter (\<lambda>k. to_store_lsn start_lsn \<le>s k) (logstore_lsns (m_free_pba_store st)))"
proof -
  have "(start_lsn \<le>s to_repl_lsn k) = (to_store_lsn start_lsn \<le>s k)"
    if "k \<in> set (logstore_lsns (m_free_pba_store st))" for k
  proof -
    from that assms(2) have "k \<noteq> int64_max"
      unfolding no_wrapped_record by auto
    then show ?thesis
      using assms(1) by (simp add: word_sle_eq sint_to_repl_lsn sint_to_store_lsn) arith
  qed
  then have "filter (\<lambda>k. start_lsn \<le>s to_repl_lsn k) (logstore_lsns (m_free_pba_store st))
           = filter (\<lambda>k. to_store_lsn start_lsn \<le>s k) (logstore_lsns (m_free_pba_store st))"
    by (intro filter_cong) simp_all
  then show ?thesis
    by (simp add: stored_lsns_def filter_map comp_def)
qed

lemma stored_pbas_Some:
  assumes "stored_pbas st lsn \<noteq> None"
  shows "deserialize_pbas (the (map_of (log_records (m_free_pba_store st)) (to_store_lsn lsn)))
           = Inr (the (stored_pbas st lsn))"
  using assms
  by (auto simp: stored_pbas_def stored_entry_def split: option.splits sum.splits)

text \<open>
  The whole run of \<^verbatim>\<open>get_free_pba_records\<close> over a journal whose records in the range
  can be read back.
\<close>

lemma get_free_pba_records_run:
  assumes s: "start_lsn \<noteq> int64_min" and e: "end_lsn \<noteq> int64_min"
    and nw: "int64_min \<notin> set (stored_lsns st)"
    and wf: "\<And>lsn. lsn \<in> set (stored_lsns st) \<Longrightarrow> start_lsn \<le>s lsn \<Longrightarrow> lsn <s end_lsn
                  \<Longrightarrow> stored_pbas st lsn \<noteq> None"
  shows "get_free_pba_records start_lsn end_lsn cb st u =
           Inr (map to_store_lsn
                  (takeWhile (\<lambda>lsn. lsn <s end_lsn - 1)
                     (filter (\<lambda>lsn. start_lsn \<le>s lsn) (stored_lsns st))
                   @ take 1 (dropWhile (\<lambda>lsn. lsn <s end_lsn - 1)
                     (filter (\<lambda>lsn. start_lsn \<le>s lsn) (stored_lsns st)))),
                fold (\<lambda>lsn. cb lsn (the (stored_pbas st lsn)))
                  (filter (\<lambda>lsn. start_lsn \<le>s lsn \<and> lsn <s end_lsn) (stored_lsns st)) u)"
proof -
  let ?ls = "m_free_pba_store st"
  let ?ks = "filter (\<lambda>k. to_store_lsn start_lsn \<le>s k) (logstore_lsns ?ls)"
  let ?g = "\<lambda>k. the (map_of (log_records ?ls) k)"
  let ?p = "\<lambda>k. the (stored_pbas st (to_repl_lsn k))"
  have frm: "filter (\<lambda>lsn. start_lsn \<le>s lsn) (stored_lsns st) = map to_repl_lsn ?ks"
    using s nw by (rule stored_lsns_from)
  have ks: "sorted (map sint ?ks)" "distinct ?ks"
    by (simp_all add: sorted_filter)
  have top: "int64_max \<notin> set ?ks"
    using nw unfolding no_wrapped_record by simp
  have dec: "deserialize_pbas (?g k) = Inr (?p k)"
    if k: "k \<in> set ?ks" and lt: "to_repl_lsn k <s end_lsn" for k
  proof -
    from k have "to_repl_lsn k \<in> set (map to_repl_lsn ?ks)" by simp
    then have "to_repl_lsn k \<in> set (filter (\<lambda>lsn. start_lsn \<le>s lsn) (stored_lsns st))"
      unfolding frm .
    then have "to_repl_lsn k \<in> set (stored_lsns st)" and "start_lsn \<le>s to_repl_lsn k"
      by simp_all
    then have "stored_pbas st (to_repl_lsn k) \<noteq> None"
      using lt by (rule wf)
    from stored_pbas_Some [OF this] show ?thesis by simp
  qed
  have run: "get_free_pba_records start_lsn end_lsn cb st u =
          Inr ([] @ takeWhile (\<lambda>k. to_repl_lsn k <s end_lsn - 1) ?ks
                     @ take 1 (dropWhile (\<lambda>k. to_repl_lsn k <s end_lsn - 1) ?ks),
                fold (\<lambda>k. cb (to_repl_lsn k) (?p k)) (filter (\<lambda>k. to_repl_lsn k <s end_lsn) ?ks) u)"
    unfolding get_free_pba_records_def logstore_foreach_def logstore_entries_from_eq
    using ks top e dec by (rule foreach_free_pba_visitor)
  have unmap: "map (\<lambda>k. to_store_lsn (to_repl_lsn k)) xs = xs" for xs
    by (induction xs) simp_all
  have seen: "map to_store_lsn
                (takeWhile Q (map to_repl_lsn xs) @ take 1 (dropWhile Q (map to_repl_lsn xs)))
              = takeWhile (\<lambda>k. Q (to_repl_lsn k)) xs
                  @ take 1 (dropWhile (\<lambda>k. Q (to_repl_lsn k)) xs)" for Q xs
    by (simp add: takeWhile_map dropWhile_map take_map comp_def unmap)
  have "filter (\<lambda>lsn. start_lsn \<le>s lsn \<and> lsn <s end_lsn) (stored_lsns st)
          = filter (\<lambda>lsn. lsn <s end_lsn) (filter (\<lambda>lsn. start_lsn \<le>s lsn) (stored_lsns st))"
    by simp
  also have "\<dots> = map to_repl_lsn (filter (\<lambda>k. to_repl_lsn k <s end_lsn) ?ks)"
    unfolding frm filter_map by (simp add: comp_def)
  finally have calls: "fold (\<lambda>lsn. cb lsn (the (stored_pbas st lsn)))
                  (filter (\<lambda>lsn. start_lsn \<le>s lsn \<and> lsn <s end_lsn) (stored_lsns st)) u
            = fold (\<lambda>k. cb (to_repl_lsn k) (?p k)) (filter (\<lambda>k. to_repl_lsn k <s end_lsn) ?ks) u"
    by (simp add: fold_map comp_def)
  show ?thesis
    unfolding run calls frm seen by simp
qed

lemma set_stored_lsns: "set (stored_lsns st) = {lsn. stored_entry st lsn \<noteq> None}"
proof -
  have "to_repl_lsn k \<in> {lsn. stored_entry st lsn \<noteq> None}"
    if "k \<in> fst ` set (log_records (m_free_pba_store st))" for k
    using map_of_fst_image [OF that]
    by (auto simp: stored_entry_def)
  moreover have "lsn \<in> to_repl_lsn ` fst ` set (log_records (m_free_pba_store st))"
    if "stored_entry st lsn \<noteq> None" for lsn
  proof -
    from that obtain b where "map_of (log_records (m_free_pba_store st)) (to_store_lsn lsn) = Some b"
      by (auto simp: stored_entry_def)
    then have "(to_store_lsn lsn, b) \<in> set (log_records (m_free_pba_store st))"
      by (rule map_of_SomeD)
    then have "to_store_lsn lsn \<in> fst ` set (log_records (m_free_pba_store st))"
      by force
    then have "to_repl_lsn (to_store_lsn lsn) \<in> to_repl_lsn ` fst ` set (log_records (m_free_pba_store st))"
      by (rule imageI)
    then show ?thesis by simp
  qed
  ultimately show ?thesis
    by (auto simp: stored_lsns_def set_logstore_lsns)
qed

lemma sorted_stored_lsns:
  assumes "int64_min \<notin> set (stored_lsns st)"
  shows "sorted (map sint (stored_lsns st))"
proof -
  have "sint (to_repl_lsn k) = sint k + 1"
    if "k \<in> set (logstore_lsns (m_free_pba_store st))" for k
  proof -
    from that assms have "k \<noteq> int64_max"
      unfolding no_wrapped_record by auto
    then show ?thesis by (rule sint_to_repl_lsn)
  qed
  then have "map sint (stored_lsns st) = map (\<lambda>k. sint k + 1) (logstore_lsns (m_free_pba_store st))"
    by (simp add: stored_lsns_def)
  also have "\<dots> = map (\<lambda>i. i + 1) (map sint (logstore_lsns (m_free_pba_store st)))"
    by simp
  finally show ?thesis
    using sorted_logstore_lsns [of "m_free_pba_store st"]
    by (simp only: sorted_map) (simp add: sorted_wrt_map)
qed

lemma distinct_stored_lsns: "distinct (stored_lsns st)"
  by (simp add: stored_lsns_def distinct_map inj_on_def to_repl_lsn_def)

text \<open>
  Claim C1, amended. For every \<open>start_lsn\<close> and \<open>end_lsn\<close> above the least 64-bit value
  and every journal without a record at the consensus LSN \<open>int64_min\<close>, that is at the
  store LSN \<open>int64_max\<close> (the records in the range holding a complete PBA list, as every
  record written by \<^verbatim>\<open>add_free_pba_record\<close> does), \<^verbatim>\<open>get_free_pba_records\<close> iterates the
  log store from \<open>start_lsn\<close> inclusive, in ascending order, and calls the visitor exactly
  for the stored records whose consensus LSN \<open>l\<close> has \<open>start_lsn \<le> l < end_lsn\<close>, once
  each, with the PBA list stored there. The iteration goes past a record only while
  \<open>l < end_lsn - 1\<close>: the store LSNs it looks at are those of the records below
  \<open>end_lsn - 1\<close> and of the first record at or above it, so a record at \<open>end_lsn - 1\<close> is
  still delivered and ends the iteration. In scenario S6, with records at the LSNs 1 to
  5, the replay of 2 to 5 calls the visitor for 2, 3 and 4, and never reaches the record
  at 5.
\<close>

theorem get_free_pba_records_range:
  assumes "start_lsn \<noteq> int64_min" and "end_lsn \<noteq> int64_min"
    and "int64_min \<notin> set (stored_lsns st)"
    and "\<forall>lsn \<in> set (stored_lsns st).
             start_lsn \<le>s lsn \<and> lsn <s end_lsn \<longrightarrow> stored_pbas st lsn \<noteq> None"
  shows "get_free_pba_records start_lsn end_lsn cb st u =
           Inr (map to_store_lsn
                  (takeWhile (\<lambda>lsn. lsn <s end_lsn - 1)
                     (filter (\<lambda>lsn. start_lsn \<le>s lsn) (stored_lsns st))
                   @ take 1 (dropWhile (\<lambda>lsn. lsn <s end_lsn - 1)
                     (filter (\<lambda>lsn. start_lsn \<le>s lsn) (stored_lsns st)))),
                fold (\<lambda>lsn. cb lsn (the (stored_pbas st lsn)))
                  (filter (\<lambda>lsn. start_lsn \<le>s lsn \<and> lsn <s end_lsn) (stored_lsns st)) u)
         \<and> sint (end_lsn - 1) = sint end_lsn - 1
         \<and> set (stored_lsns st) = {lsn. stored_entry st lsn \<noteq> None}
         \<and> sorted (map sint (stored_lsns st)) \<and> distinct (stored_lsns st)"
proof -
  have "get_free_pba_records start_lsn end_lsn cb st u =
           Inr (map to_store_lsn
                  (takeWhile (\<lambda>lsn. lsn <s end_lsn - 1)
                     (filter (\<lambda>lsn. start_lsn \<le>s lsn) (stored_lsns st))
                   @ take 1 (dropWhile (\<lambda>lsn. lsn <s end_lsn - 1)
                     (filter (\<lambda>lsn. start_lsn \<le>s lsn) (stored_lsns st)))),
                fold (\<lambda>lsn. cb lsn (the (stored_pbas st lsn)))
                  (filter (\<lambda>lsn. start_lsn \<le>s lsn \<and> lsn <s end_lsn) (stored_lsns st)) u)"
    using assms(1,2,3) by (rule get_free_pba_records_run) (use assms(4) in blast)
  moreover have "sint (end_lsn - 1) = sint end_lsn - 1"
    using assms(2) by (rule sint_pred64)
  ultimately show ?thesis
    using set_stored_lsns [of st] sorted_stored_lsns [OF assms(3)] distinct_stored_lsns [of st]
    by blast
qed

theorem get_free_pba_records_range_witness:
  "(2 :: 64 word) \<noteq> int64_min \<and> (5 :: 64 word) \<noteq> int64_min
   \<and> stored_lsns s6_store = [1, 2, 3, 4, 5]
   \<and> int64_min \<notin> set (stored_lsns s6_store)
   \<and> stored_pbas s6_store 2 = Some [20]
   \<and> stored_pbas s6_store 3 = Some [30, 31]
   \<and> stored_pbas s6_store 4 = Some []
   \<and> get_free_pba_records 2 5 note_call s6_store [] =
       Inr ([1, 2, 3], [(2, [20]), (3, [30, 31]), (4, [])])"
proof -
  have b: "(2 :: 64 word) \<noteq> int64_min" "(5 :: 64 word) \<noteq> int64_min"
    by (simp_all add: int64_min_def)
  have l: "stored_lsns s6_store = [1, 2, 3, 4, 5]"
    by code_simp
  have nw: "int64_min \<notin> set (stored_lsns s6_store)"
    unfolding l by (simp add: int64_min_def)
  have p: "stored_pbas s6_store 2 = Some [20]" "stored_pbas s6_store 3 = Some [30, 31]"
    "stored_pbas s6_store 4 = Some []"
    by code_simp+
  have h: "\<forall>lsn \<in> set (stored_lsns s6_store). 2 \<le>s lsn \<and> lsn <s 5 \<longrightarrow> stored_pbas s6_store lsn \<noteq> None"
    unfolding l using p by (simp add: word_sle_eq word_sless_alt)
  have r: "(map to_store_lsn
                  (takeWhile (\<lambda>lsn. lsn <s 5 - 1)
                     (filter (\<lambda>lsn. 2 \<le>s lsn) (stored_lsns s6_store))
                   @ take 1 (dropWhile (\<lambda>lsn. lsn <s 5 - 1)
                     (filter (\<lambda>lsn. 2 \<le>s lsn) (stored_lsns s6_store)))),
                fold (\<lambda>lsn. note_call lsn (the (stored_pbas s6_store lsn)))
                  (filter (\<lambda>lsn. 2 \<le>s lsn \<and> lsn <s 5) (stored_lsns s6_store)) [])
           = ([1, 2, 3], [(2, [20]), (3, [30, 31]), (4, [])])"
    unfolding l using p by (simp add: note_call_def to_store_lsn_def word_sle_eq word_sless_alt)
  from get_free_pba_records_range [OF b nw h, of note_call "[]"]
  have "get_free_pba_records 2 5 note_call s6_store [] =
       Inr ([1, 2, 3], [(2, [20]), (3, [30, 31]), (4, [])])"
    unfolding r by (rule conjunct1)
  with b l nw p show ?thesis by blast
qed

text \<open>
  The claim as it was stated, for every \<open>start_lsn\<close>, \<open>end_lsn\<close> and journal, fails at the
  ends of the 64-bit range. From \<open>start_lsn = int64_min\<close> the iteration begins at the
  store LSN \<open>int64_max\<close> and the visitor is called for none of the records 1 to 5, all of
  which lie in the range. With \<open>end_lsn = int64_min\<close> the bound \<open>end_lsn - 1\<close> is
  \<open>int64_max\<close> and the iteration walks over every record. A record at the store LSN
  \<open>int64_max\<close> is delivered under the LSN \<open>int64_min\<close>, outside the range 5 to 10.
\<close>

theorem get_free_pba_records_range_limits:
  "filter (\<lambda>lsn. int64_min \<le>s lsn \<and> lsn <s 6) (stored_lsns s6_store) = [1, 2, 3, 4, 5]
   \<and> get_free_pba_records int64_min 6 note_call s6_store [] = Inr ([], [])
   \<and> get_free_pba_records 2 int64_min note_call s6_store [] = Inr ([1, 2, 3, 4], [])
   \<and> get_free_pba_records 5 10 note_call wrapped_store []
       = Inr ([int64_max], [(int64_min, [77])])"
  by code_simp

text \<open>
  Claim C9, amended. When \<open>end_lsn \<le> start_lsn\<close> and the log store holds no record at
  the store LSN \<open>int64_max\<close> (whatever else it holds, well-formed or not),
  \<^verbatim>\<open>get_free_pba_records\<close> never calls the visitor: the caller's state comes back
  unchanged. When moreover \<open>end_lsn\<close> is above the least 64-bit value, the iteration ends
  at the first record it meets, if there is one.
\<close>

theorem get_free_pba_records_nothing:
  assumes "end_lsn \<le>s start_lsn" and "int64_min \<notin> set (stored_lsns st)"
  shows "map_sum id snd (get_free_pba_records start_lsn end_lsn cb st u) = Inr u
         \<and> (end_lsn \<noteq> int64_min \<longrightarrow>
              get_free_pba_records start_lsn end_lsn cb st u =
                Inr (map to_store_lsn
                       (take 1 (filter (\<lambda>lsn. start_lsn \<le>s lsn) (stored_lsns st))), u))"
proof -
  let ?ls = "m_free_pba_store st"
  have top: "int64_max \<notin> set (logstore_lsns ?ls)"
    using assms(2) unfolding no_wrapped_record .
  have quiet: "\<not> to_repl_lsn k <s end_lsn"
    if "(k, b) \<in> set (logstore_entries_from (to_store_lsn start_lsn) ?ls)" for k b
  proof (cases "start_lsn = int64_min")
    case True
    with assms(1) have "end_lsn = int64_min"
      using sint_bounds64(1) [of end_lsn] by (simp add: word_sle_eq sint_int64_min word_eq_iff_signed [where 'a = int])
    then show ?thesis by (simp add: int64_min_least)
  next
    case False
    from that have k: "k \<in> set (logstore_lsns ?ls)" and ge: "to_store_lsn start_lsn \<le>s k"
      by (auto simp: logstore_entries_from_eq)
    from k top have "k \<noteq> int64_max" by auto
    then show ?thesis
      using ge False assms(1)
      by (simp add: word_sle_eq word_sless_alt sint_to_repl_lsn sint_to_store_lsn)
  qed
  from foreach_no_emit [of "logstore_entries_from (to_store_lsn start_lsn) ?ls" end_lsn cb "[]" u]
    quiet
  obtain seen' where "get_free_pba_records start_lsn end_lsn cb st u = Inr (seen', u)"
    unfolding get_free_pba_records_def logstore_foreach_def by blast
  then have first: "map_sum id snd (get_free_pba_records start_lsn end_lsn cb st u) = Inr u"
    by simp
  have second: "get_free_pba_records start_lsn end_lsn cb st u =
                Inr (map to_store_lsn
                       (take 1 (filter (\<lambda>lsn. start_lsn \<le>s lsn) (stored_lsns st))), u)"
    if e: "end_lsn \<noteq> int64_min"
  proof -
    from e assms(1) have s: "start_lsn \<noteq> int64_min"
      using sint_bounds64(1) [of end_lsn]
      by (auto simp: word_sle_eq sint_int64_min word_eq_iff_signed [where 'a = int])
    have e1: "sint (end_lsn - 1) = sint end_lsn - 1"
      using e by (rule sint_pred64)
    have none: "filter (\<lambda>lsn. start_lsn \<le>s lsn \<and> lsn <s end_lsn) (stored_lsns st) = []"
      using assms(1) by (auto simp: filter_empty_conv word_sle_eq word_sless_alt)
    have stop: "takeWhile (\<lambda>lsn. lsn <s end_lsn - 1)
                  (filter (\<lambda>lsn. start_lsn \<le>s lsn) (stored_lsns st)) = []"
      using assms(1) e1 by (cases "filter (\<lambda>lsn. start_lsn \<le>s lsn) (stored_lsns st)")
        (auto simp: filter_eq_Cons_iff word_sle_eq word_sless_alt)
    have stay: "dropWhile (\<lambda>lsn. lsn <s end_lsn - 1)
                  (filter (\<lambda>lsn. start_lsn \<le>s lsn) (stored_lsns st))
              = filter (\<lambda>lsn. start_lsn \<le>s lsn) (stored_lsns st)"
      using assms(1) e1 by (cases "filter (\<lambda>lsn. start_lsn \<le>s lsn) (stored_lsns st)")
        (auto simp: filter_eq_Cons_iff word_sle_eq word_sless_alt)
    have "get_free_pba_records start_lsn end_lsn cb st u =
           Inr (map to_store_lsn
                  (takeWhile (\<lambda>lsn. lsn <s end_lsn - 1)
                     (filter (\<lambda>lsn. start_lsn \<le>s lsn) (stored_lsns st))
                   @ take 1 (dropWhile (\<lambda>lsn. lsn <s end_lsn - 1)
                     (filter (\<lambda>lsn. start_lsn \<le>s lsn) (stored_lsns st)))),
                fold (\<lambda>lsn. cb lsn (the (stored_pbas st lsn)))
                  (filter (\<lambda>lsn. start_lsn \<le>s lsn \<and> lsn <s end_lsn) (stored_lsns st)) u)"
      using s e assms(2)
      by (rule get_free_pba_records_run) (use assms(1) in \<open>auto simp: word_sle_eq word_sless_alt\<close>)
    then show ?thesis
      unfolding none stop stay by simp
  qed
  from first second show ?thesis by blast
qed

theorem get_free_pba_records_nothing_witness:
  "(2 :: 64 word) \<le>s 3 \<and> (2 :: 64 word) \<noteq> int64_min
   \<and> int64_min \<notin> set (stored_lsns s6_store)
   \<and> get_free_pba_records 3 2 note_call s6_store [] = Inr ([2], [])
   \<and> int64_min \<le>s int64_min
   \<and> map_sum id snd (get_free_pba_records int64_min int64_min note_call s6_store []) = Inr []"
proof -
  have l: "stored_lsns s6_store = [1, 2, 3, 4, 5]"
    by code_simp
  have nw: "int64_min \<notin> set (stored_lsns s6_store)"
    unfolding l by (simp add: int64_min_def)
  have a: "map to_store_lsn (take 1 (filter (\<lambda>lsn. 3 \<le>s lsn) (stored_lsns s6_store))) = [2]"
    unfolding l by (simp add: to_store_lsn_def word_sle_eq)
  have h1: "(2 :: 64 word) \<le>s 3" and h1': "(2 :: 64 word) \<noteq> int64_min"
    and h2: "int64_min \<le>s int64_min"
    by (simp_all add: word_sle_eq int64_min_def)
  from get_free_pba_records_nothing [OF h1 nw, of note_call "[]"] h1'
  have x: "get_free_pba_records 3 2 note_call s6_store [] = Inr ([2], [])"
    unfolding a by blast
  from get_free_pba_records_nothing [OF h2 nw, of note_call "[]"]
  have y: "map_sum id snd (get_free_pba_records int64_min int64_min note_call s6_store []) = Inr []"
    by blast
  from h1 h1' nw x h2 y show ?thesis by blast
qed

text \<open>
  The claim as it was stated, for every content of the log store, fails for a record at
  the store LSN \<open>int64_max\<close>: its consensus LSN wraps to \<open>int64_min\<close>, which is below every
  \<open>end_lsn\<close> but the least, so the visitor is called although \<open>end_lsn \<le> start_lsn\<close>. And
  with \<open>end_lsn = int64_min\<close> the iteration does not end at the first record.
\<close>

theorem get_free_pba_records_nothing_limits:
  "(5 :: 64 word) \<le>s 5
   \<and> get_free_pba_records 5 5 note_call wrapped_store [] = Inr ([int64_max], [(int64_min, [77])])
   \<and> int64_min \<le>s (1 :: 64 word)
   \<and> get_free_pba_records 1 int64_min note_call s6_store [] = Inr ([0, 1, 2, 3, 4], [])"
  by code_simp

subsection \<open>The journal stays readable\<close>

text \<open>
  Every record that \<^verbatim>\<open>add_free_pba_record\<close> has written can be read back, and the other
  member functions keep it so: the journals that the store builds itself satisfy the
  hypothesis of the replay theorem.
\<close>

lemma write_pbas_Some_fits:
  "write_pbas raw_ptr pbas b = Some b' \<Longrightarrow> raw_ptr + 8 * length pbas \<le> max raw_ptr (length b)"
proof (induction pbas arbitrary: raw_ptr b)
  case Nil
  then show ?case by simp
next
  case (Cons pba pbas)
  from Cons.prems obtain b1 where
    st: "store_bytes raw_ptr (to_le_bytes 8 pba) b = Some b1"
    and wr: "write_pbas (raw_ptr + 8) pbas b1 = Some b'"
    by (auto split: option.splits)
  from st have fit: "raw_ptr + 8 \<le> length b" and len: "length b1 = length b"
    by (auto simp: store_bytes_def split: if_splits)
  from Cons.IH [OF wr] fit len show ?case by simp
qed

lemma serialize_pbas_Inr:
  assumes "serialize_pbas pbas = Inr b"
  shows "length pbas < 2 ^ 29" and "b = record_bytes pbas"
proof -
  let ?hd = "to_le_bytes 4 (of_nat (length pbas) :: 32 word)"
  from assms obtain b1 b2 where
    st: "store_bytes 0 ?hd (io_blob_alloc (size_needed pbas)) = Some b1"
    and wr: "write_pbas 4 pbas b1 = Some b2"
    by (auto simp: serialize_pbas_def Let_def split: option.splits simp del: to_le_bytes.simps)
  from st have len: "length b1 = unat (size_needed pbas)" and four: "4 \<le> length b1"
    by (auto simp: store_bytes_def io_blob_alloc_def split: if_splits simp del: to_le_bytes.simps)
  from write_pbas_Some_fits [OF wr] four have "4 + 8 * length pbas \<le> unat (size_needed pbas)"
    by (simp add: len)
  moreover have "unat (size_needed pbas) < 2 ^ 32"
    using unsigned_less [of "size_needed pbas", where 'a = nat] by simp
  ultimately show small: "length pbas < 2 ^ 29" by simp
  from serialize_pbas_fits [OF small] assms show "b = record_bytes pbas" by simp
qed

lemma stored_pbas_add:
  assumes "add_free_pba_record lsn pbas st = Inr st'"
  shows "stored_pbas st' l = (if l = lsn then Some pbas else stored_pbas st l)"
proof -
  from assms obtain b where b: "serialize_pbas pbas = Inr b"
    and st': "st' = st\<lparr>m_last_write_lsn := lsn,
                  m_free_pba_store := logstore_write_async (to_store_lsn lsn) b (m_free_pba_store st)\<rparr>"
    by (auto simp: add_free_pba_record_def split: sum.splits)
  from serialize_pbas_Inr [OF b] have small: "length pbas < 2 ^ 29" and rb: "b = record_bytes pbas" .
  from small have "length pbas < 2 ^ 32" by simp
  then have dec: "deserialize_pbas b = Inr pbas"
    unfolding rb by (rule deserialize_record_bytes)
  have other: "map_of (filter (\<lambda>r. fst r \<noteq> k) xs) k' = map_of xs k'" if "k' \<noteq> k"
    for k k' :: store_lsn_t and xs :: "(store_lsn_t \<times> log_buffer) list"
    using that by (induction xs) auto
  show ?thesis
    using dec
    by (auto simp: st' stored_pbas_def stored_entry_def logstore_write_async_def
        to_store_lsn_def other)
qed

lemma stored_lsns_add:
  assumes "add_free_pba_record lsn pbas st = Inr st'"
  shows "set (stored_lsns st') = insert lsn (set (stored_lsns st))"
proof -
  from assms obtain b where
    st': "st' = st\<lparr>m_last_write_lsn := lsn,
                  m_free_pba_store := logstore_write_async (to_store_lsn lsn) b (m_free_pba_store st)\<rparr>"
    by (auto simp: add_free_pba_record_def split: sum.splits)
  have "fst ` set (log_records (logstore_write_async k b ls)) = insert k (fst ` set (log_records ls))"
    for k and ls :: HomeLogStore
    by (auto simp: logstore_write_async_def image_iff)
  then show ?thesis
    by (simp add: st' stored_lsns_def set_logstore_lsns)
qed

lemma journal_ok_fresh: "journal_ok fresh_store"
  by (simp add: journal_ok_def stored_lsns_def logstore_lsns_def fresh_store_def)

lemma journal_ok_add:
  assumes "journal_ok st" and "add_free_pba_record lsn pbas st = Inr st'"
  shows "journal_ok st'"
  using assms(1) stored_lsns_add [OF assms(2)] stored_pbas_add [OF assms(2)]
  by (auto simp: journal_ok_def list_all_iff)

lemma logstore_lsns_truncate:
  "logstore_lsns (logstore_truncate upto_lsn ls) = filter (\<lambda>k. upto_lsn <s k) (logstore_lsns ls)"
proof -
  have "map fst (filter (\<lambda>r. upto_lsn <s fst r) xs) = filter (\<lambda>k. upto_lsn <s k) (map fst xs)"
    for xs :: "(store_lsn_t \<times> log_buffer) list"
    by (simp add: filter_map comp_def)
  then show ?thesis
    by (simp add: logstore_lsns_def logstore_truncate_def remdups_filter filter_sort)
qed

lemma stored_pbas_remove:
  "stored_pbas (remove_free_pba_records_upto lsn st) l
     = (if to_store_lsn lsn <s to_store_lsn l then stored_pbas st l else None)"
  by (simp add: stored_pbas_def stored_entry_def remove_free_pba_records_upto_def
      logstore_truncate_def map_of_filter_fst)

lemma journal_ok_remove:
  assumes "journal_ok st"
  shows "journal_ok (remove_free_pba_records_upto lsn st)"
proof -
  have "set (stored_lsns (remove_free_pba_records_upto lsn st))
          = {l \<in> set (stored_lsns st). to_store_lsn lsn <s to_store_lsn l}"
    by (auto simp: stored_lsns_def remove_free_pba_records_upto_def logstore_lsns_truncate)
  with assms show ?thesis
    by (auto simp: journal_ok_def list_all_iff stored_pbas_remove)
qed

lemma journal_ok_flush:
  "journal_ok (flush_free_pba_records invalid_lsn st) = journal_ok st"
  by (simp add: journal_ok_def stored_lsns_def stored_pbas_def stored_entry_def
      flush_free_pba_records_def Let_def logstore_flush_sync_def logstore_lsns_def)

lemma journal_ok_commit:
  "commit_lsn lsn st = Some st' \<Longrightarrow> journal_ok st' = journal_ok st"
  by (auto simp: commit_lsn_def Let_def journal_ok_def stored_lsns_def stored_pbas_def
      stored_entry_def split: option.splits)

lemma journal_ok_range:
  "journal_ok st \<Longrightarrow>
   \<forall>lsn \<in> set (stored_lsns st). start_lsn \<le>s lsn \<and> lsn <s end_lsn \<longrightarrow> stored_pbas st lsn \<noteq> None"
  by (simp add: journal_ok_def list_all_iff)

text \<open>
  A journal written under LSNs above the least 64-bit value has no record at the store
  LSN \<open>int64_max\<close>, and a truncation keeps it so.
\<close>

lemma no_wrapped_record_fresh: "int64_min \<notin> set (stored_lsns fresh_store)"
  by (simp add: stored_lsns_def logstore_lsns_def fresh_store_def)

lemma no_wrapped_record_add:
  assumes "int64_min \<notin> set (stored_lsns st)" and "lsn \<noteq> int64_min"
    and "add_free_pba_record lsn pbas st = Inr st'"
  shows "int64_min \<notin> set (stored_lsns st')"
  using assms(1,2) stored_lsns_add [OF assms(3)] by auto


subsection \<open>Truncating the journal\<close>









end
